theory Spec2Isabelle
  imports Main "HOL-Library.Word"
begin

section \<open>Bytes, errors and Python primitives\<close>

text \<open>
  Elements of Python \<open>bytes\<close> and \<open>bytearray\<close> objects are integers in
  \<open>range(256)\<close>; they are modelled as 8-bit words.  Python integers are unbounded
  and are modelled as \<open>int\<close>; indices and lengths that the code keeps
  non-negative are \<open>nat\<close>.  The two built-in exceptions the code can raise are
  values of \<open>error\<close>.
\<close>

type_synonym byte = "8 word"

datatype error = IndexError | ValueError

text \<open>\<open>"{0:b}".format(number)\<close>: the binary digits without leading zeros, with a
  leading minus sign for a negative number.\<close>

fun format_b_nat :: "nat \<Rightarrow> string" where
  "format_b_nat n =
     (if n < 2 then [if n = 0 then CHR ''0'' else CHR ''1'']
      else format_b_nat (n div 2) @ [if n mod 2 = 0 then CHR ''0'' else CHR ''1''])"

declare format_b_nat.simps [simp del]

definition format_b :: "int \<Rightarrow> string" where
  "format_b number =
     (if number < 0 then CHR ''-'' # format_b_nat (nat (- number))
      else format_b_nat (nat number))"

text \<open>\<open>int2str(number, length)\<close>.  Python's \<open>"0" * k\<close> is the empty string for
  \<open>k \<le> 0\<close>, which is what \<open>replicate\<close> on the truncated difference gives.\<close>

definition int2str :: "int \<Rightarrow> nat \<Rightarrow> string" where
  "int2str number len =
     (let number' = format_b number
      in replicate (len - length number') CHR ''0'' @ number')"

text \<open>\<open>int(s, 2)\<close> on the strings \<open>int2str\<close> can produce (characters \<open>0\<close>,
  \<open>1\<close> and \<open>-\<close>): an optional leading sign followed by at least one binary
  digit; anything else raises \<open>ValueError\<close>.\<close>

fun parse_bits :: "string \<Rightarrow> int \<Rightarrow> int option" where
  "parse_bits [] acc = Some acc"
| "parse_bits (c # cs) acc =
     (if c = CHR ''0'' then parse_bits cs (2 * acc)
      else if c = CHR ''1'' then parse_bits cs (2 * acc + 1)
      else None)"

definition int_base2 :: "string \<Rightarrow> error + int" where
  "int_base2 s =
     (case s of
        [] \<Rightarrow> Inl ValueError
      | c # cs \<Rightarrow>
          if c = CHR ''-'' then
            (if cs = [] then Inl ValueError
             else case parse_bits cs 0 of None \<Rightarrow> Inl ValueError | Some v \<Rightarrow> Inr (- v))
          else (case parse_bits s 0 of None \<Rightarrow> Inl ValueError | Some v \<Rightarrow> Inr v))"

text \<open>Storing an integer into a \<open>bytearray\<close> raises \<open>ValueError\<close> outside
  \<open>range(256)\<close>.\<close>

definition to_byte :: "int \<Rightarrow> error + byte" where
  "to_byte v = (if 0 \<le> v \<and> v < 256 then Inr (word_of_int v) else Inl ValueError)"

text \<open>\<open>xs[i]\<close> for a non-negative index.\<close>

definition index :: "'a list \<Rightarrow> nat \<Rightarrow> error + 'a" where
  "index xs i = (if i < length xs then Inr (xs ! i) else Inl IndexError)"

text \<open>\<open>xs[start:end]\<close> with Python's treatment of negative and out-of-range
  bounds; a slice never raises.\<close>

definition slice_bound :: "int \<Rightarrow> int \<Rightarrow> int" where
  "slice_bound i n = (if i < 0 then max (i + n) 0 else min i n)"

definition py_slice :: "'a list \<Rightarrow> int \<Rightarrow> int \<Rightarrow> 'a list" where
  "py_slice xs start end' =
     (let n = int (length xs);
          s = slice_bound start n;
          e = slice_bound end' n
      in take (nat (e - s)) (drop (nat s) xs))"

text \<open>\<open>popleft_n(queue, n)\<close>: pops up to \<open>n\<close> elements from the left; returns
  the popped elements together with what is left in the queue.\<close>

fun popleft_n :: "'a list \<Rightarrow> nat \<Rightarrow> 'a list \<times> 'a list" where
  "popleft_n queue 0 = ([], queue)"
| "popleft_n [] (Suc n) = ([], [])"
| "popleft_n (x # queue) (Suc n) =
     (let (ret, queue') = popleft_n queue n in (x # ret, queue'))"

text \<open>\<open>deque(maxlen=m).extend(xs)\<close> (and \<open>append\<close> for a singleton): elements are
  added on the right, and the oldest ones fall off the left beyond \<open>m\<close>.\<close>

definition deque_extend :: "nat \<Rightarrow> 'a list \<Rightarrow> 'a list \<Rightarrow> 'a list" where
  "deque_extend maxlen q xs = (let r = q @ xs in drop (length r - maxlen) r)"

section \<open>class Pointer\<close>

definition ESCAPE_CHAR :: byte where
  "ESCAPE_CHAR = 0xCC"

definition pointer_size :: nat where
  "pointer_size = 2"

definition bits_offset :: nat where
  "bits_offset = 12"

definition bits_length :: nat where
  "bits_length = 4"

definition length_shortest_match :: nat where
  "length_shortest_match = pointer_size + 2"

definition length_longest_match :: nat where
  "length_longest_match = 2 ^ bits_length + length_shortest_match - 1"

definition size_sliding_window :: nat where
  "size_sliding_window = 2 ^ bits_offset"

definition size_buffer :: nat where
  "size_buffer = length_longest_match + 10"

text \<open>The loop \<open>for i in range(1, len(barr))\<close> of \<open>encode\<close>, stopping at the first
  assignment that raises.\<close>

fun encode_fields :: "string \<Rightarrow> nat list \<Rightarrow> error + byte list" where
  "encode_fields bstr [] = Inr []"
| "encode_fields bstr (i # is) =
     (case int_base2 (take 8 (drop ((i - 1) * 8) bstr)) of
        Inl e \<Rightarrow> Inl e
      | Inr v \<Rightarrow>
          (case to_byte v of
             Inl e \<Rightarrow> Inl e
           | Inr b \<Rightarrow>
               (case encode_fields bstr is of
                  Inl e \<Rightarrow> Inl e
                | Inr bs \<Rightarrow> Inr (b # bs))))"

definition encode :: "int \<Rightarrow> int \<Rightarrow> error + byte list" where
  "encode offset len =
     (let len' = len - int length_shortest_match;
          bstr = int2str offset bits_offset @ int2str len' bits_length
      in case encode_fields bstr [1 ..< pointer_size + 1] of
           Inl e \<Rightarrow> Inl e
         | Inr bs \<Rightarrow> Inr (ESCAPE_CHAR # bs))"

definition decode :: "byte list \<Rightarrow> error + int \<times> int" where
  "decode arr_bytes =
     (let bstr = concat (map (\<lambda>n. int2str (uint n) 8) (drop 1 arr_bytes))
      in case int_base2 (take bits_offset bstr) of
           Inl e \<Rightarrow> Inl e
         | Inr offset \<Rightarrow>
             (case int_base2 (drop bits_offset bstr) of
                Inl e \<Rightarrow> Inl e
              | Inr len \<Rightarrow> Inr (offset, len + int length_shortest_match)))"

section \<open>class Compressor\<close>

subsection \<open>find_match\<close>

text \<open>The inner matching loop.  It returns the final values of
  \<open>tmp_sliding_window\<close> and \<open>cur_buffer\<close>.\<close>

function match_loop :: "byte list \<Rightarrow> byte list \<Rightarrow> nat \<Rightarrow> nat \<Rightarrow> nat \<times> nat" where
  "match_loop sliding_window buffer tmp_sliding_window cur_buffer =
     (if tmp_sliding_window < length sliding_window \<and> cur_buffer < length buffer
         \<and> cur_buffer < length_longest_match
         \<and> sliding_window ! tmp_sliding_window = buffer ! cur_buffer
      then match_loop sliding_window buffer (tmp_sliding_window + 1) (cur_buffer + 1)
      else (tmp_sliding_window, cur_buffer))"
  by pat_completeness auto
termination
  by (relation "measure (\<lambda>(sw, b, t, c). length sw - t)") auto

declare match_loop.simps [simp del]

text \<open>The outer loop \<open>while cur_sliding_window >= 0\<close>.  The counter argument is
  \<open>cur_sliding_window + 1\<close>, so that \<open>0\<close> is the loop's exit; \<open>buffer[0]\<close>
  raises \<open>IndexError\<close> on an empty buffer.\<close>

fun scan_window :: "byte list \<Rightarrow> byte list \<Rightarrow> nat \<Rightarrow> error + (nat \<times> nat) option" where
  "scan_window sliding_window buffer 0 = Inr None"
| "scan_window sliding_window buffer (Suc cur_sliding_window) =
     (case index buffer 0 of
        Inl e \<Rightarrow> Inl e
      | Inr b0 \<Rightarrow>
          if sliding_window ! cur_sliding_window \<noteq> b0
          then scan_window sliding_window buffer cur_sliding_window
          else
            (let (tmp_sliding_window, cur_buffer) =
                   match_loop sliding_window buffer cur_sliding_window 0
             in if cur_buffer < length_shortest_match
                then scan_window sliding_window buffer cur_sliding_window
                else Inr (Some (length sliding_window - (tmp_sliding_window - cur_buffer) - 1,
                                cur_buffer))))"

definition find_match :: "byte list \<Rightarrow> byte list \<Rightarrow> error + (nat \<times> nat) option" where
  "find_match sliding_window buffer =
     scan_window sliding_window buffer (length sliding_window)"

text \<open>The length of the run the finder measures at window index \<open>c\<close>.\<close>

definition match_length :: "byte list \<Rightarrow> byte list \<Rightarrow> nat \<Rightarrow> nat" where
  "match_length sw b c = snd (match_loop sw b c 0)"


subsection \<open>Properties of the match finder\<close>

lemma popleft_n_eq: "popleft_n q n = (take n q, drop n q)"
  by (induction q n rule: popleft_n.induct) auto

lemma length_deque_extend_le: "length (deque_extend m q xs) \<le> length q + length xs"
  by (simp add: deque_extend_def Let_def)

lemma match_loop_run:
  "match_loop sw b t c = (t', c') \<Longrightarrow>
     \<exists>k. t' = t + k \<and> c' = c + k
        \<and> (\<forall>i<k. t + i < length sw \<and> c + i < length b \<and> c + i < length_longest_match
                   \<and> sw ! (t + i) = b ! (c + i))
        \<and> \<not> (t' < length sw \<and> c' < length b \<and> c' < length_longest_match
                \<and> sw ! t' = b ! c')"
proof (induction sw b t c rule: match_loop.induct)
  case (1 sw b t c)
  show ?case
  proof (cases "t < length sw \<and> c < length b \<and> c < length_longest_match \<and> sw ! t = b ! c")
    case True
    with "1.prems" have "match_loop sw b (t + 1) (c + 1) = (t', c')"
      by (subst (asm) match_loop.simps) simp
    from "1.IH" [OF True this] obtain k where k:
      "t' = t + 1 + k" "c' = c + 1 + k"
      "\<forall>i<k. t + 1 + i < length sw \<and> c + 1 + i < length b \<and> c + 1 + i < length_longest_match
                   \<and> sw ! (t + 1 + i) = b ! (c + 1 + i)"
      "\<not> (t' < length sw \<and> c' < length b \<and> c' < length_longest_match \<and> sw ! t' = b ! c')"
      by blast
    have "\<forall>i<Suc k. t + i < length sw \<and> c + i < length b \<and> c + i < length_longest_match
                   \<and> sw ! (t + i) = b ! (c + i)"
    proof (intro allI impI)
      fix i assume "i < Suc k"
      show "t + i < length sw \<and> c + i < length b \<and> c + i < length_longest_match
                   \<and> sw ! (t + i) = b ! (c + i)"
      proof (cases i)
        case 0
        with True show ?thesis by simp
      next
        case (Suc j)
        with \<open>i < Suc k\<close> have "j < k" by simp
        with k(3) Suc show ?thesis by simp
      qed
    qed
    with k show ?thesis
      by (intro exI [of _ "Suc k"]) simp
  next
    case False
    with "1.prems" have "t' = t" "c' = c"
      by (subst (asm) match_loop.simps, simp)+
    with False show ?thesis
      by (intro exI [of _ 0]) simp
  qed
qed


lemma match_loop_fst:
  "match_loop sw b c 0 = (c + match_length sw b c, match_length sw b c)"
proof -
  obtain t' c' where tc: "match_loop sw b c 0 = (t', c')"
    by (cases "match_loop sw b c 0")
  from match_loop_run [OF tc] tc show ?thesis
    by (auto simp: match_length_def)
qed

lemma match_length_mismatch: "b \<noteq> [] \<Longrightarrow> sw ! c \<noteq> b ! 0 \<Longrightarrow> match_length sw b c = 0"
  by (simp add: match_length_def match_loop.simps)

lemma match_length_empty: "match_length sw [] c = 0"
  by (simp add: match_length_def match_loop.simps)

lemma scan_window_empty_buffer:
  "scan_window sw [] n = (if n = 0 then Inr None else Inl IndexError)"
  by (cases n) (simp_all add: index_def)

lemma scan_window_Some:
  "scan_window sw b n = Inr (Some (off, len)) \<Longrightarrow>
     \<exists>c<n. off = length sw - c - 1 \<and> len = match_length sw b c
          \<and> length_shortest_match \<le> len
          \<and> (\<forall>c'. c < c' \<and> c' < n \<longrightarrow> match_length sw b c' < length_shortest_match)"
proof (induction n)
  case 0
  then show ?case by simp
next
  case (Suc n)
  show ?case
  proof (cases "b = []")
    case True
    with Suc.prems show ?thesis by (simp add: index_def)
  next
    case False
    then have ix: "index b 0 = Inr (b ! 0)" by (simp add: index_def)
    show ?thesis
    proof (cases "match_length sw b n < length_shortest_match")
      case True
      have "scan_window sw b n = Inr (Some (off, len))"
      proof (cases "sw ! n \<noteq> b ! 0")
        case True
        with Suc.prems ix show ?thesis by simp
      next
        case False
        with Suc.prems ix True show ?thesis
          by (simp add: match_loop_fst)
      qed
      from Suc.IH [OF this] obtain c where c: "c < n" "off = length sw - c - 1"
        "len = match_length sw b c" "length_shortest_match \<le> len"
        "\<forall>c'. c < c' \<and> c' < n \<longrightarrow> match_length sw b c' < length_shortest_match"
        by blast
      have "\<forall>c'. c < c' \<and> c' < Suc n \<longrightarrow> match_length sw b c' < length_shortest_match"
        using c(5) True by (auto simp: less_Suc_eq)
      with c show ?thesis
        by (intro exI [of _ c]) simp
    next
      case ge: False
      then have "sw ! n = b ! 0"
        using match_length_mismatch [OF \<open>b \<noteq> []\<close>, of sw n]
        by (auto simp: length_shortest_match_def)
      with Suc.prems ix ge have "off = length sw - n - 1" "len = match_length sw b n"
        by (simp_all add: match_loop_fst)
      with ge show ?thesis
        by (intro exI [of _ n]) simp
    qed
  qed
qed

lemma scan_window_None:
  "scan_window sw b n = Inr None \<Longrightarrow> c < n \<Longrightarrow> match_length sw b c < length_shortest_match"
proof (induction n)
  case 0
  then show ?case by simp
next
  case (Suc n)
  have ne: "b \<noteq> []"
    using Suc.prems(1) by (auto simp: index_def)
  then have ix: "index b 0 = Inr (b ! 0)" by (simp add: index_def)
  have rej: "match_length sw b n < length_shortest_match"
  proof (cases "sw ! n \<noteq> b ! 0")
    case True
    then show ?thesis
      using match_length_mismatch [OF ne, of sw n] by (simp add: length_shortest_match_def)
  next
    case False
    with Suc.prems(1) ix show ?thesis
      by (simp add: match_loop_fst split: if_splits)
  qed
  have rest: "scan_window sw b n = Inr None"
    using Suc.prems(1) ix rej by (simp add: match_loop_fst split: if_splits)
  show ?case
  proof (cases "c = n")
    case True
    with rej show ?thesis by simp
  next
    case False
    with Suc.prems(2) have "c < n" by simp
    from Suc.IH [OF rest this] show ?thesis .
  qed
qed

lemma scan_window_total:
  "b \<noteq> [] \<Longrightarrow> \<exists>r. scan_window sw b n = Inr r"
  by (induction n) (auto simp: index_def Let_def split: prod.splits)
lemma find_match_Some:
  "find_match sw b = Inr (Some (off, len)) \<Longrightarrow>
     \<exists>c<length sw. off = length sw - c - 1 \<and> len = match_length sw b c
          \<and> length_shortest_match \<le> len
          \<and> (\<forall>c'. c < c' \<and> c' < length sw \<longrightarrow> match_length sw b c' < length_shortest_match)"
  unfolding find_match_def by (rule scan_window_Some)

lemma match_length_bounds:
  "c + match_length sw b c \<le> max c (length sw) \<and> match_length sw b c \<le> length b
     \<and> match_length sw b c \<le> length_longest_match"
proof -
  from match_loop_run [OF match_loop_fst [of sw b c]]
  obtain k where k: "c + match_length sw b c = c + k" "match_length sw b c = 0 + k"
    "\<forall>i<k. c + i < length sw \<and> 0 + i < length b \<and> 0 + i < length_longest_match
                   \<and> sw ! (c + i) = b ! (0 + i)"
    by blast
  show ?thesis
  proof (cases k)
    case 0
    with k show ?thesis by simp
  next
    case (Suc j)
    with k(3) have "c + j < length sw \<and> j < length b \<and> j < length_longest_match"
      by (metis add_0 lessI)
    with k(2) Suc show ?thesis by simp
  qed
qed

lemma match_length_eq:
  "i < match_length sw b c \<Longrightarrow> sw ! (c + i) = b ! i"
proof -
  from match_loop_run [OF match_loop_fst [of sw b c]]
  obtain k where k: "match_length sw b c = 0 + k"
    "\<forall>i<k. c + i < length sw \<and> 0 + i < length b \<and> 0 + i < length_longest_match
                   \<and> sw ! (c + i) = b ! (0 + i)"
    by blast
  assume "i < match_length sw b c"
  with k show ?thesis by simp
qed


subsection \<open>compress\<close>

text \<open>The state of the encoding loop: the unread input \<open>text\<close> (here
  \<open>text_in\<close>), the two bounded deques and the output.\<close>

record cstate =
  text_in :: "byte list"
  sliding_window :: "byte list"
  buffer :: "byte list"
  encoded :: "byte list"

text \<open>One iteration of \<open>while len(buffer) > 0\<close>.  The progress line the loop
  prints is not part of the state; its division by \<open>len(content)\<close> cannot fail,
  since the loop only runs on a non-empty input.\<close>

definition compress_step :: "cstate \<Rightarrow> error + cstate" where
  "compress_step st =
     (case find_match (sliding_window st) (buffer st) of
        Inl e \<Rightarrow> Inl e
      | Inr None \<Rightarrow>
          (case buffer st of
             [] \<Rightarrow> Inl IndexError
           | head # rest \<Rightarrow>
               Inr \<lparr> text_in = drop 1 (text_in st),
                     sliding_window = deque_extend size_sliding_window (sliding_window st) [head],
                     buffer = (if length (text_in st) > 0
                               then deque_extend size_buffer rest (take 1 (text_in st))
                               else rest),
                     encoded = encoded st @
                       (if head = ESCAPE_CHAR then [0xCC, 0x00, 0x00] else [head]) \<rparr>)
      | Inr (Some (offset, len)) \<Rightarrow>
          (case encode (int offset) (int len) of
             Inl e \<Rightarrow> Inl e
           | Inr pointer \<Rightarrow>
               (let (popped, rest) = popleft_n (buffer st) len;
                    (moved, text') = popleft_n (text_in st) len
                in Inr \<lparr> text_in = text',
                         sliding_window = deque_extend size_sliding_window (sliding_window st) popped,
                         buffer = deque_extend size_buffer rest moved,
                         encoded = encoded st @ pointer \<rparr>)))"

lemma compress_step_decreases:
  assumes "compress_step st = Inr st'" and "buffer st \<noteq> []"
  shows "length (buffer st') + length (text_in st') < length (buffer st) + length (text_in st)"
proof (cases "find_match (sliding_window st) (buffer st)")
  case (Inl e)
  with assms show ?thesis by (simp add: compress_step_def)
next
  case (Inr r)
  show ?thesis
  proof (cases r)
    case None
    obtain head rest where b: "buffer st = head # rest"
      using assms(2) by (cases "buffer st") auto
    have st': "buffer st' = (if length (text_in st) > 0
                 then deque_extend size_buffer rest (take 1 (text_in st)) else rest)"
      "text_in st' = drop 1 (text_in st)"
      using assms(1) Inr None b by (auto simp: compress_step_def)
    show ?thesis
    proof (cases "text_in st")
      case Nil
      with st' b show ?thesis by simp
    next
      case (Cons t ts)
      have "length (deque_extend size_buffer rest [t]) \<le> length rest + 1"
        using length_deque_extend_le [of size_buffer rest "[t]"] by simp
      with Cons st' b show ?thesis by simp
    qed
  next
    case (Some p)
    obtain off len where p: "p = (off, len)" by (cases p)
    from find_match_Some [of "sliding_window st" "buffer st" off len] Inr Some p
    have "length_shortest_match \<le> len" by auto
    then have len: "0 < len" by (simp add: length_shortest_match_def)
    obtain pointer where "encode (int off) (int len) = Inr pointer"
      using assms(1) Inr Some p by (auto simp: compress_step_def split: sum.splits)
    then have st': "buffer st' = deque_extend size_buffer (drop len (buffer st)) (take len (text_in st))"
      "text_in st' = drop len (text_in st)"
      using assms(1) Inr Some p by (auto simp: compress_step_def popleft_n_eq)
    have "length (buffer st') \<le> length (drop len (buffer st)) + length (take len (text_in st))"
      unfolding st' by (rule length_deque_extend_le)
    moreover have "length (drop len (buffer st)) < length (buffer st)"
      using len assms(2) by simp
    ultimately show ?thesis
      using st'(2) by simp
  qed
qed

function compress_loop :: "cstate \<Rightarrow> error + byte list" where
  "compress_loop st =
     (if length (buffer st) > 0
      then (case compress_step st of
              Inl e \<Rightarrow> Inl e
            | Inr st' \<Rightarrow> compress_loop st')
      else Inr (encoded st))"
  by pat_completeness auto
termination
proof (relation "measure (\<lambda>st. length (buffer st) + length (text_in st))")
  show "wf (measure (\<lambda>st. length (buffer st) + length (text_in st)))"
    by simp
next
  fix st st' :: cstate
  assume "0 < length (buffer st)" and "compress_step st = Inr st'"
  then show "(st', st) \<in> measure (\<lambda>st. length (buffer st) + length (text_in st))"
    using compress_step_decreases [of st st'] by simp
qed

declare compress_loop.simps [simp del]

text \<open>The state on entry to the loop: both deques are created empty, and the
  read-ahead buffer is filled from the input.\<close>

definition initial_state :: "byte list \<Rightarrow> cstate" where
  "initial_state content =
     (let (popped, text') = popleft_n content size_buffer
      in \<lparr> text_in = text',
           sliding_window = [],
           buffer = deque_extend size_buffer [] popped,
           encoded = [] \<rparr>)"

definition compress :: "byte list \<Rightarrow> error + byte list" where
  "compress content = compress_loop (initial_state content)"


subsection \<open>decompress\<close>

text \<open>The state of the decoding loop: the read cursor and the output (the local
  variable \<open>decode\<close> of the source, here \<open>decoded\<close>).\<close>

record dstate =
  cur :: nat
  decoded :: "byte list"

text \<open>One iteration of \<open>while cur < len(content)\<close>.  The test
  \<open>content[cur + 1] == 0 and content[cur + 2] == 0\<close> reads the second byte only
  when the first is zero; each read raises \<open>IndexError\<close> past the end.\<close>

definition decompress_step :: "byte list \<Rightarrow> dstate \<Rightarrow> error + dstate" where
  "decompress_step content st =
     (case index content (cur st) of
        Inl e \<Rightarrow> Inl e
      | Inr head \<Rightarrow>
          if head \<noteq> ESCAPE_CHAR
          then Inr \<lparr> cur = cur st + 1, decoded = decoded st @ [head] \<rparr>
          else
            (case index content (cur st + 1) of
               Inl e \<Rightarrow> Inl e
             | Inr b1 \<Rightarrow>
                 (case (if b1 = 0
                        then (case index content (cur st + 2) of
                                Inl e \<Rightarrow> Inl e
                              | Inr b2 \<Rightarrow> Inr (b2 = 0))
                        else Inr False) of
                    Inl e \<Rightarrow> Inl e
                  | Inr True \<Rightarrow>
                      Inr \<lparr> cur = cur st + 3, decoded = decoded st @ [ESCAPE_CHAR] \<rparr>
                  | Inr False \<Rightarrow>
                      (let barr = py_slice content (int (cur st))
                                    (int (cur st) + int pointer_size + 1)
                       in case decode barr of
                            Inl e \<Rightarrow> Inl e
                          | Inr (offset, len) \<Rightarrow>
                              (let start = int (length (decoded st)) - offset - 1;
                                   end' = start + len
                               in Inr \<lparr> cur = cur st + pointer_size + 1,
                                        decoded = decoded st
                                          @ py_slice (decoded st) start end' \<rparr>)))))"

lemma decompress_step_advances:
  "decompress_step content st = Inr st' \<Longrightarrow> cur st < cur st'"
  by (auto simp: decompress_step_def Let_def split: sum.splits if_splits bool.splits)

function decompress_loop :: "byte list \<Rightarrow> dstate \<Rightarrow> error + byte list" where
  "decompress_loop content st =
     (if cur st < length content
      then (case decompress_step content st of
              Inl e \<Rightarrow> Inl e
            | Inr st' \<Rightarrow> decompress_loop content st')
      else Inr (decoded st))"
  by pat_completeness auto
termination
proof (relation "measure (\<lambda>(content, st). length content - cur st)")
  show "wf (measure (\<lambda>(content, st). length content - cur st))"
    by simp
next
  fix content :: "byte list" and st st' :: dstate
  assume "cur st < length content" and "decompress_step content st = Inr st'"
  then show "((content, st'), (content, st)) \<in> measure (\<lambda>(content, st). length content - cur st)"
    using decompress_step_advances [of content st st'] by simp
qed

declare decompress_loop.simps [simp del]

definition decompress :: "byte list \<Rightarrow> error + byte list" where
  "decompress content = decompress_loop content \<lparr> cur = 0, decoded = [] \<rparr>"

section \<open>The pointer codec\<close>

text \<open>The \<open>k\<close>-digit big-endian binary numeral of \<open>n mod 2 ^ k\<close>.\<close>

fun bits :: "nat \<Rightarrow> nat \<Rightarrow> string" where
  "bits 0 n = []"
| "bits (Suc k) n = bits k (n div 2) @ [if n mod 2 = 0 then CHR ''0'' else CHR ''1'']"

lemma length_bits [simp]: "length (bits k n) = k"
  by (induction k arbitrary: n) auto

lemma bits_zero: "bits k 0 = replicate k CHR ''0''"
  by (induction k) (auto simp: replicate_append_same)

lemma format_b_nat_bits:
  "0 < k \<Longrightarrow> n < 2 ^ k \<Longrightarrow>
     length (format_b_nat n) \<le> k
     \<and> replicate (k - length (format_b_nat n)) CHR ''0'' @ format_b_nat n = bits k n"
proof (induction k arbitrary: n)
  case 0
  then show ?case by simp
next
  case (Suc k)
  show ?case
  proof (cases "n < 2")
    case True
    then have f: "format_b_nat n = [if n = 0 then CHR ''0'' else CHR ''1'']"
      by (subst format_b_nat.simps) simp
    from True have d: "n div 2 = 0" and m: "(n mod 2 = 0) = (n = 0)" by auto
    show ?thesis
      by (simp add: f d m bits_zero)
  next
    case False
    then have f: "format_b_nat n
        = format_b_nat (n div 2) @ [if n mod 2 = 0 then CHR ''0'' else CHR ''1'']"
      by (subst format_b_nat.simps) simp
    from False Suc.prems have k: "0 < k"
      by (cases k) auto
    from Suc.prems have "n div 2 < 2 ^ k" by auto
    from Suc.IH [OF k this] show ?thesis
      by (simp add: f Suc_diff_le)
  qed
qed

lemma int2str_bits:
  "0 < k \<Longrightarrow> 0 \<le> v \<Longrightarrow> v < 2 ^ k \<Longrightarrow> int2str v k = bits k (nat v)"
proof -
  assume k: "0 < k" and v: "0 \<le> v" "v < 2 ^ k"
  then have "nat v < 2 ^ k"
    by (simp add: nat_less_iff)
  from format_b_nat_bits [OF k this] v show ?thesis
    by (simp add: int2str_def format_b_def Let_def)
qed

lemma parse_bits_snoc:
  "parse_bits (cs @ [c]) acc =
     (case parse_bits cs acc of
        None \<Rightarrow> None
      | Some v \<Rightarrow> if c = CHR ''0'' then Some (2 * v)
                  else if c = CHR ''1'' then Some (2 * v + 1) else None)"
  by (induction cs arbitrary: acc) auto

lemma parse_bits_bits:
  "parse_bits (bits k n) 0 = Some (int (n mod 2 ^ k))"
proof (induction k arbitrary: n)
  case 0
  show ?case by simp
next
  case (Suc k)
  have "n mod 2 ^ Suc k = 2 * ((n div 2) mod 2 ^ k) + n mod 2"
    by (simp add: mod_mult2_eq)
  then show ?case
    by (auto simp: parse_bits_snoc Suc.IH)
qed

lemma int_base2_bits:
  "0 < k \<Longrightarrow> int_base2 (bits k n) = Inr (int (n mod 2 ^ k))"
proof -
  assume "0 < k"
  then obtain j where j: "k = Suc j" by (cases k) auto
  obtain c cs where cs: "bits k n = c # cs"
    using j by (cases "bits k n") (auto dest: arg_cong [where f = length])
  have "c \<in> set (bits k n)" using cs by simp
  have nm: "\<And>k n. CHR ''-'' \<notin> set (bits k n)"
  proof -
    fix k n show "CHR ''-'' \<notin> set (bits k n)"
      by (induction k arbitrary: n) auto
  qed
  have "c \<noteq> CHR ''-''"
    using nm [of k n] cs by auto
  then show ?thesis
    using parse_bits_bits [of k n] cs by (simp add: int_base2_def)
qed

lemma bits_mod: "bits k (n mod 2 ^ k) = bits k n"
proof (induction k arbitrary: n)
  case 0
  show ?case by simp
next
  case (Suc k)
  have "(n mod 2 ^ Suc k) div 2 = (n div 2) mod 2 ^ k"
    by (simp add: mod_mult2_eq)
  moreover have "(n mod 2 ^ Suc k) mod 2 = n mod 2"
    by (simp add: mod_mod_cancel)
  ultimately show ?case
    using Suc.IH [of "n div 2"] by simp
qed

lemma bits_add: "bits (a + b) n = bits a (n div 2 ^ b) @ bits b n"
proof (induction b arbitrary: n)
  case 0
  show ?case by simp
next
  case (Suc b)
  have "n div 2 div 2 ^ b = n div 2 ^ Suc b"
    by (simp add: div_mult2_eq)
  then show ?case
    using Suc.IH [of "n div 2"] by simp
qed

lemma bits_append:
  "y < 2 ^ b \<Longrightarrow> bits a x @ bits b y = bits (a + b) (x * 2 ^ b + y)"
proof -
  assume y: "y < 2 ^ b"
  have "bits b (x * 2 ^ b + y) = bits b ((x * 2 ^ b + y) mod 2 ^ b)"
    by (simp only: bits_mod)
  also have "(x * 2 ^ b + y) mod 2 ^ b = y"
    using y by simp
  finally show ?thesis
    using y by (simp add: bits_add)
qed


text \<open>The number a pointer's payload holds: the offset in the upper \<open>bits_offset\<close>
  bits, the biased length in the lower \<open>bits_length\<close> bits.\<close>

definition pointer_field :: "nat \<Rightarrow> nat \<Rightarrow> nat" where
  "pointer_field offset len = offset * 2 ^ bits_length + (len - length_shortest_match)"

lemma encode_bstr:
  assumes "offset < 4096" "4 \<le> len" "len \<le> 19"
  shows "int2str (int offset) bits_offset
           @ int2str (int len - int length_shortest_match) bits_length
           = bits 16 (pointer_field offset len)"
proof -
  have o: "int2str (int offset) 12 = bits 12 offset"
    using assms int2str_bits [of 12 "int offset"] by simp
  have "nat (int len - 4) = len - 4"
    by simp
  then have l: "int2str (int len - 4) 4 = bits 4 (len - 4)"
    using assms int2str_bits [of 4 "int len - 4"] by simp
  have "len - 4 < 2 ^ 4" using assms by simp
  from bits_append [OF this, of 12 offset]
  have "bits 12 offset @ bits 4 (len - 4) = bits 16 (offset * 16 + (len - 4))"
    by simp
  then show ?thesis
    using o l
    by (simp add: pointer_field_def bits_offset_def bits_length_def
          length_shortest_match_def pointer_size_def)
qed

lemma encode_fields_bits16:
  assumes "v < 65536"
  shows "encode_fields (bits 16 v) [1, 2]
           = Inr [word_of_nat (v div 256), word_of_nat (v mod 256)]"
proof -
  have split: "bits 16 v = bits 8 (v div 256) @ bits 8 v"
    using bits_add [of 8 8 v] by simp
  have "v div 256 < 256" using assms by simp
  then have hi: "int_base2 (take 8 (bits 16 v)) = Inr (int (v div 256))"
    by (simp add: split int_base2_bits)
  have lo: "int_base2 (drop 8 (bits 16 v)) = Inr (int (v mod 256))"
    by (simp add: split int_base2_bits)
  have hib: "to_byte (int (v div 256)) = Inr (word_of_nat (v div 256))"
    using assms by (simp add: to_byte_def)
  have lob: "to_byte (int (v mod 256)) = Inr (word_of_nat (v mod 256))"
    by (simp add: to_byte_def)
  show ?thesis
    by (simp add: hi lo hib lob)
qed

lemma pointer_field_less:
  "offset < 4096 \<Longrightarrow> len \<le> 19 \<Longrightarrow> pointer_field offset len < 65536"
  by (simp add: pointer_field_def bits_length_def length_shortest_match_def pointer_size_def)

lemma encode_in_range:
  assumes "offset < 4096" "4 \<le> len" "len \<le> 19"
  shows "encode (int offset) (int len)
           = Inr [ESCAPE_CHAR, word_of_nat (pointer_field offset len div 256),
                  word_of_nat (pointer_field offset len mod 256)]"
proof -
  have idx: "[1 ..< pointer_size + 1] = [1, 2]"
    by (simp add: pointer_size_def upt_rec)
  show ?thesis
    unfolding encode_def Let_def encode_bstr [OF assms] idx
      encode_fields_bits16 [OF pointer_field_less [OF assms(1,3)]]
    by simp
qed

lemma decode_three:
  "decode [m, b1, b2]
     = Inr (int ((unat b1 * 256 + unat b2) div 16),
            int ((unat b1 * 256 + unat b2) mod 16) + int length_shortest_match)"
proof -
  let ?w = "unat b1 * 256 + unat b2"
  have b1: "unat b1 < 256" using unsigned_less [of b1, where 'a = nat] by simp
  have b2: "unat b2 < 2 ^ 8" using unsigned_less [of b2, where 'a = nat] by simp
  have s1: "int2str (uint b1) 8 = bits 8 (unat b1)"
    using int2str_bits [of 8 "uint b1"] uint_lt2p [of b1] by simp
  have s2: "int2str (uint b2) 8 = bits 8 (unat b2)"
    using int2str_bits [of 8 "uint b2"] uint_lt2p [of b2] by simp
  have cat: "bits 8 (unat b1) @ bits 8 (unat b2) = bits 16 ?w"
    using bits_append [OF b2, of 8 "unat b1"] by simp
  have split: "bits 16 ?w = bits 12 (?w div 16) @ bits 4 ?w"
    using bits_add [of 12 4 ?w] by simp
  have w: "?w div 16 < 4096" using b1 b2 by simp
  show ?thesis
    using w
    by (simp add: decode_def Let_def s1 s2 cat split bits_offset_def int_base2_bits)
qed

lemma decode_encode:
  assumes "offset < 4096" "4 \<le> len" "len \<le> 19"
  shows "decode [ESCAPE_CHAR, word_of_nat (pointer_field offset len div 256),
                  word_of_nat (pointer_field offset len mod 256)] = Inr (int offset, int len)"
proof -
  let ?f = "pointer_field offset len"
  have lt: "?f < 65536"
    by (rule pointer_field_less [OF assms(1,3)])
  have u1: "unat (word_of_nat (?f div 256) :: byte) = ?f div 256"
    using lt by (simp add: unat_of_nat)
  have u2: "unat (word_of_nat (?f mod 256) :: byte) = ?f mod 256"
    by (simp add: unat_of_nat)
  have f: "?f = offset * 16 + (len - 4)"
    by (simp add: pointer_field_def bits_length_def length_shortest_match_def pointer_size_def)
  define k where "k = len - 4"
  have k: "k < 16" "?f = offset * 16 + k"
    using assms by (simp_all add: f k_def)
  have "?f div 16 = offset" "?f mod 16 = len - 4"
    unfolding k(2) using k(1) by (simp_all add: k_def)
  then show ?thesis
    using assms by (simp add: decode_three u1 u2 length_shortest_match_def pointer_size_def)
qed

text \<open>
  C3: for every offset in \<open>[0, 2 ^ bits_offset - 1]\<close> and every length in
  \<open>[length_shortest_match, length_longest_match]\<close> (with the defaults, offsets up
  to 4095 and lengths 4 to 19), \<open>encode\<close> returns the escape marker followed by
  \<open>pointer_size\<close> bytes that hold, big-endian, the number
  \<open>offset * 2 ^ bits_length + (length - length_shortest_match)\<close>, and \<open>decode\<close>
  of those bytes returns exactly \<open>(offset, length)\<close>.
\<close>

theorem decode_encode_inverse:
  assumes "offset < 2 ^ bits_offset"
    and "length_shortest_match \<le> len" and "len \<le> length_longest_match"
  shows "encode (int offset) (int len)
           = Inr [ESCAPE_CHAR, word_of_nat (pointer_field offset len div 256),
                  word_of_nat (pointer_field offset len mod 256)]
         \<and> length [ESCAPE_CHAR, word_of_nat (pointer_field offset len div 256) :: byte,
                  word_of_nat (pointer_field offset len mod 256)] = pointer_size + 1
         \<and> decode [ESCAPE_CHAR, word_of_nat (pointer_field offset len div 256),
                  word_of_nat (pointer_field offset len mod 256)] = Inr (int offset, int len)"
proof -
  from assms have r: "offset < 4096" "4 \<le> len" "len \<le> 19"
    by (simp_all add: bits_offset_def length_shortest_match_def length_longest_match_def
          bits_length_def pointer_size_def)
  show ?thesis
    using encode_in_range [OF r] decode_encode [OF r]
    by (simp add: pointer_size_def)
qed

theorem decode_encode_inverse_witness:
  "(5::nat) < 2 ^ bits_offset \<and> length_shortest_match \<le> 6 \<and> 6 \<le> length_longest_match
   \<and> encode 5 6 = Inr [ESCAPE_CHAR, 0x00, 0x52]
   \<and> decode [ESCAPE_CHAR, 0x00, 0x52] = Inr (5, 6)"
  using decode_encode_inverse [of 5 6]
  by (simp add: bits_offset_def length_shortest_match_def length_longest_match_def
        bits_length_def pointer_size_def pointer_field_def)

section \<open>Worked examples\<close>

text \<open>The input \<open>b"abcabcabcabc"\<close>.\<close>

definition abc12 :: "byte list" where
  "abc12 = [0x61, 0x62, 0x63, 0x61, 0x62, 0x63, 0x61, 0x62, 0x63, 0x61, 0x62, 0x63]"

text \<open>
  C7: \<open>compress\<close> of the empty byte sequence is the empty byte sequence, and
  \<open>decompress\<close> of the empty byte sequence is the empty byte sequence; neither
  raises.
\<close>

theorem compress_decompress_empty:
  "compress [] = Inr [] \<and> decompress [] = Inr []"
  by (simp add: compress_def initial_state_def popleft_n_eq deque_extend_def compress_loop.simps
        decompress_def decompress_loop.simps)

text \<open>
  C2, as stated, fails: on \<open>b"abcabcabcabc"\<close> the fourth byte of the output is the
  literal \<open>a\<close> again, not the escape marker of a pointer.  After the first three
  literals the window holds only \<open>abc\<close>, and a run may not cross the window's right
  edge, so the longest run available is 3, below the shortest match of 4.
\<close>

theorem compress_abc12_counterexample:
  "compress abc12 = Inr [0x61, 0x62, 0x63, 0x61, 0x62, 0x63, 0xCC, 0x00, 0x52]
   \<and> [0x61, 0x62, 0x63, 0x61, 0x62, 0x63, 0xCC, 0x00, 0x52 :: byte] ! 3 \<noteq> ESCAPE_CHAR"
  by code_simp

text \<open>
  C2, amended: on \<open>b"abcabcabcabc"\<close> with the default parameters, \<open>compress\<close>
  produces the six literal bytes \<open>abcabc\<close> followed by one pointer, the bytes
  \<open>CC 00 52\<close>, which decode to offset 5 and length 6 and so cover the remaining
  six bytes; \<open>decompress\<close> of that output returns exactly \<open>b"abcabcabcabc"\<close>.
\<close>

theorem compress_abc12:
  "compress abc12 = Inr [0x61, 0x62, 0x63, 0x61, 0x62, 0x63, 0xCC, 0x00, 0x52]
   \<and> decode [0xCC, 0x00, 0x52] = Inr (5, 6)
   \<and> decompress [0x61, 0x62, 0x63, 0x61, 0x62, 0x63, 0xCC, 0x00, 0x52] = Inr abc12"
  by code_simp

section \<open>The match finder\<close>

lemma find_match_total: "b \<noteq> [] \<Longrightarrow> \<exists>r. find_match sw b = Inr r"
  unfolding find_match_def by (rule scan_window_total)

lemma find_match_None:
  "find_match sw b = Inr None \<Longrightarrow> c < length sw \<Longrightarrow> match_length sw b c < length_shortest_match"
  unfolding find_match_def by (rule scan_window_None)

lemma find_match_nearest:
  assumes "find_match sw b = Inr (Some (off, len))"
  shows "off < length sw \<and> len = match_length sw b (length sw - 1 - off)
         \<and> length_shortest_match \<le> len
         \<and> (\<forall>off'<off. match_length sw b (length sw - 1 - off') < length_shortest_match)"
proof -
  from find_match_Some [OF assms]
  obtain c where c: "c < length sw" "off = length sw - c - 1" "len = match_length sw b c"
    "length_shortest_match \<le> len"
    "\<forall>c'. c < c' \<and> c' < length sw \<longrightarrow> match_length sw b c' < length_shortest_match"
    by auto
  have pos: "length sw - 1 - off = c" using c(1,2) by simp
  have "\<forall>off'<off. match_length sw b (length sw - 1 - off') < length_shortest_match"
  proof (intro allI impI)
    fix off' assume "off' < off"
    with c(1,2) have "c < length sw - 1 - off' \<and> length sw - 1 - off' < length sw"
      by arith
    with c(5) show "match_length sw b (length sw - 1 - off') < length_shortest_match"
      by blast
  qed
  with c pos show ?thesis by simp
qed

text \<open>
  C5: the match finder follows the nearest-match-wins policy.  On a non-empty buffer
  it never raises; it reports no match exactly when no window position yields a run
  of at least \<open>length_shortest_match\<close> bytes; and a reported match \<open>(off, len)\<close> is
  the run measured at offset \<open>off\<close>, is long enough, and every smaller offset was
  rejected because its run was too short.  Consequently the reported offset is the
  smallest among all offsets with an eligible run: of two eligible matches, equally
  long or not, the nearer one is taken and no longer match further away is sought.
\<close>

theorem nearest_match_wins:
  assumes "b \<noteq> []"
  shows "\<exists>r. find_match sw b = Inr r \<and>
    (case r of
       None \<Rightarrow> (\<forall>c<length sw. match_length sw b c < length_shortest_match)
     | Some (off, len) \<Rightarrow>
         off < length sw \<and> len = match_length sw b (length sw - 1 - off)
         \<and> length_shortest_match \<le> len
         \<and> (\<forall>off'<off. match_length sw b (length sw - 1 - off') < length_shortest_match)
         \<and> (\<forall>off'<length sw.
               length_shortest_match \<le> match_length sw b (length sw - 1 - off')
               \<longrightarrow> off \<le> off'))"
proof -
  from find_match_total [OF assms] obtain r where r: "find_match sw b = Inr r" by blast
  show ?thesis
  proof (cases r)
    case None
    with r find_match_None [of sw b] show ?thesis by simp
  next
    case (Some p)
    obtain off len where p: "p = (off, len)" by (cases p)
    from find_match_nearest [of sw b off len] r Some p
    have n: "off < length sw" "len = match_length sw b (length sw - 1 - off)"
      "length_shortest_match \<le> len"
      "\<forall>off'<off. match_length sw b (length sw - 1 - off') < length_shortest_match"
      by simp_all
    have "\<forall>off'<length sw.
               length_shortest_match \<le> match_length sw b (length sw - 1 - off')
               \<longrightarrow> off \<le> off'"
      using n(4) by (meson not_le)
    with n r Some p show ?thesis by simp
  qed
qed

text \<open>The bytes \<open>b"abcd"\<close>; in the window \<open>b"abcdabcd"\<close> they occur at offsets 3
  and 7, with runs of the same length 4.\<close>

definition abcd :: "byte list" where
  "abcd = [0x61, 0x62, 0x63, 0x64]"

theorem nearest_match_wins_witness:
  "abcd \<noteq> [] \<and> find_match (abcd @ abcd) abcd = Inr (Some (3, 4))
   \<and> match_length (abcd @ abcd) abcd (length (abcd @ abcd) - 1 - 3) = 4
   \<and> match_length (abcd @ abcd) abcd (length (abcd @ abcd) - 1 - 7) = 4"
proof -
  have ne: "abcd \<noteq> []" by (simp add: abcd_def)
  have ev: "find_match (abcd @ abcd) abcd = Inr (Some (3, 4))"
    "match_length (abcd @ abcd) abcd (length (abcd @ abcd) - 1 - 3) = 4"
    "match_length (abcd @ abcd) abcd (length (abcd @ abcd) - 1 - 7) = 4"
    by code_simp+
  show ?thesis
    using nearest_match_wins [OF ne, of "abcd @ abcd"] ne ev by simp
qed


section \<open>Reachable states of the encoding loop\<close>

text \<open>The state after at most \<open>n\<close> iterations of the encoding loop.\<close>

fun compress_iter :: "nat \<Rightarrow> cstate \<Rightarrow> error + cstate" where
  "compress_iter 0 st = Inr st"
| "compress_iter (Suc n) st =
     (if length (buffer st) > 0
      then (case compress_step st of
              Inl e \<Rightarrow> Inl e
            | Inr st' \<Rightarrow> compress_iter n st')
      else Inr st)"

lemma length_deque_extend_max: "length (deque_extend m q xs) \<le> m"
  by (simp add: deque_extend_def Let_def)

lemma deque_extend_fits:
  "length q + length xs \<le> m \<Longrightarrow> deque_extend m q xs = q @ xs"
  by (simp add: deque_extend_def Let_def)

text \<open>Both deques respect their \<open>maxlen\<close>.\<close>

definition bounded :: "cstate \<Rightarrow> bool" where
  "bounded st \<longleftrightarrow> length (sliding_window st) \<le> size_sliding_window
                 \<and> length (buffer st) \<le> size_buffer"

lemma bounded_initial_state: "bounded (initial_state content)"
  by (simp add: bounded_def initial_state_def popleft_n_eq length_deque_extend_max)

lemma compress_step_bounded:
  assumes "compress_step st = Inr st'" and "bounded st"
  shows "bounded st'"
proof (cases "find_match (sliding_window st) (buffer st)")
  case (Inl e)
  with assms show ?thesis by (simp add: compress_step_def)
next
  case (Inr r)
  show ?thesis
  proof (cases r)
    case None
    with assms Inr show ?thesis
      by (auto simp: compress_step_def bounded_def length_deque_extend_max
            split: list.splits)
  next
    case (Some p)
    obtain off len where p: "p = (off, len)" by (cases p)
    with assms Inr Some show ?thesis
      by (auto simp: compress_step_def bounded_def popleft_n_eq length_deque_extend_max
            split: sum.splits)
  qed
qed

lemma compress_iter_bounded:
  "compress_iter n st = Inr st' \<Longrightarrow> bounded st \<Longrightarrow> bounded st'"
proof (induction n arbitrary: st)
  case 0
  then show ?case by simp
next
  case (Suc n)
  show ?case
  proof (cases "length (buffer st) > 0")
    case True
    with Suc.prems(1) obtain st1 where s: "compress_step st = Inr st1"
      "compress_iter n st1 = Inr st'"
      by (auto split: sum.splits)
    from Suc.IH [OF s(2) compress_step_bounded [OF s(1) Suc.prems(2)]] show ?thesis .
  next
    case False
    with Suc.prems show ?thesis by simp
  qed
qed

lemma find_match_run:
  assumes "find_match sw b = Inr (Some (off, len))"
  shows "off < length sw \<and> len \<le> off + 1 \<and> len \<le> length b
         \<and> length_shortest_match \<le> len \<and> len \<le> length_longest_match
         \<and> (\<forall>i<len. sw ! (length sw - 1 - off + i) = b ! i)"
proof -
  from find_match_Some [OF assms]
  obtain c where c: "c < length sw" "off = length sw - c - 1" "len = match_length sw b c"
    "length_shortest_match \<le> len"
    by auto
  have pos: "length sw - 1 - off = c" using c(1,2) by simp
  from match_length_bounds [of c sw b] c(1,3)
  have b: "c + len \<le> length sw" "len \<le> length b" "len \<le> length_longest_match"
    by simp_all
  from b(1) c(1,2) have "len \<le> off + 1" by arith
  moreover have "\<forall>i<len. sw ! (c + i) = b ! i"
    using match_length_eq [of _ sw b c] c(3) by simp
  ultimately show ?thesis
    using c b pos by simp
qed

text \<open>
  C6: in every state the encoding loop reaches from the start of \<open>compress\<close>, a
  pointer \<open>(off, len)\<close> returned by the match finder, which is the pointer the loop
  then emits, satisfies \<open>off + 1 \<ge> len\<close>, \<open>0 \<le> off < 2 ^ bits_offset\<close> and
  \<open>length_shortest_match \<le> len \<le> length_longest_match\<close>; the matched run stays
  inside the window, and \<open>encode\<close> is only asked for in-range arguments, on which it
  succeeds.
\<close>

theorem emitted_pointer_bounds:
  assumes "compress_iter n (initial_state content) = Inr st"
    and "find_match (sliding_window st) (buffer st) = Inr (Some (off, len))"
  shows "len \<le> off + 1 \<and> off < 2 ^ bits_offset
         \<and> length_shortest_match \<le> len \<and> len \<le> length_longest_match
         \<and> encode (int off) (int len)
             = Inr [ESCAPE_CHAR, word_of_nat (pointer_field off len div 256),
                    word_of_nat (pointer_field off len mod 256)]"
proof -
  from compress_iter_bounded [OF assms(1) bounded_initial_state]
  have w: "length (sliding_window st) \<le> 2 ^ bits_offset"
    by (simp add: bounded_def size_sliding_window_def)
  from find_match_run [OF assms(2)]
  have r: "off < length (sliding_window st)" "len \<le> off + 1"
    "length_shortest_match \<le> len" "len \<le> length_longest_match"
    by simp_all
  from r(1) w have o: "off < 2 ^ bits_offset" by simp
  have "encode (int off) (int len)
          = Inr [ESCAPE_CHAR, word_of_nat (pointer_field off len div 256),
                 word_of_nat (pointer_field off len mod 256)]"
    using o r(3,4)
    by (intro encode_in_range)
       (simp_all add: bits_offset_def length_shortest_match_def length_longest_match_def
          bits_length_def pointer_size_def)
  with r o show ?thesis by simp
qed

theorem emitted_pointer_bounds_witness:
  "(\<exists>st. compress_iter 6 (initial_state abc12) = Inr st
     \<and> find_match (sliding_window st) (buffer st) = Inr (Some (5, 6)))
   \<and> (6::nat) \<le> 5 + 1 \<and> (5::nat) < 2 ^ bits_offset
   \<and> length_shortest_match \<le> 6 \<and> 6 \<le> length_longest_match
   \<and> encode 5 6 = Inr [ESCAPE_CHAR, 0x00, 0x52]"
proof -
  have it: "compress_iter 6 (initial_state abc12)
      = Inr \<lparr> text_in = [], sliding_window = [0x61, 0x62, 0x63, 0x61, 0x62, 0x63],
              buffer = [0x61, 0x62, 0x63, 0x61, 0x62, 0x63],
              encoded = [0x61, 0x62, 0x63, 0x61, 0x62, 0x63] \<rparr>"
    by code_simp
  have fm: "find_match [0x61, 0x62, 0x63, 0x61, 0x62, 0x63] [0x61, 0x62, 0x63, 0x61, 0x62, 0x63]
      = Inr (Some (5, 6))"
    by code_simp
  have fm': "find_match
      (sliding_window \<lparr> text_in = [], sliding_window = [0x61, 0x62, 0x63, 0x61, 0x62, 0x63],
              buffer = [0x61, 0x62, 0x63, 0x61, 0x62, 0x63],
              encoded = [0x61, 0x62, 0x63, 0x61, 0x62, 0x63] \<rparr>)
      (buffer \<lparr> text_in = [], sliding_window = [0x61, 0x62, 0x63, 0x61, 0x62, 0x63],
              buffer = [0x61, 0x62, 0x63, 0x61, 0x62, 0x63],
              encoded = [0x61, 0x62, 0x63, 0x61, 0x62, 0x63] \<rparr>) = Inr (Some (5, 6))"
    using fm by simp
  show ?thesis
    using emitted_pointer_bounds [OF it fm'] it fm
    by (simp add: pointer_field_def bits_length_def length_shortest_match_def pointer_size_def)
qed

section \<open>Literals\<close>

lemma find_match_empty_window: "find_match [] b = Inr None"
  by (simp add: find_match_def)

lemma compress_step_literal:
  assumes "buffer st = head # rest"
    and "find_match (sliding_window st) (buffer st) = Inr None"
  shows "compress_step st =
     Inr \<lparr> text_in = drop 1 (text_in st),
           sliding_window = deque_extend size_sliding_window (sliding_window st) [head],
           buffer = (if length (text_in st) > 0
                     then deque_extend size_buffer rest (take 1 (text_in st))
                     else rest),
           encoded = encoded st @ (if head = ESCAPE_CHAR then [0xCC, 0x00, 0x00] else [head]) \<rparr>"
  using assms by (simp add: compress_step_def)

text \<open>
  C9: in the no-match step of the encoding loop, the byte popped from the front of
  the buffer is appended to the window, and the output grows by the three bytes
  \<open>ESCAPE_CHAR, 0x00, 0x00\<close> when that byte equals \<open>ESCAPE_CHAR\<close>, and by the byte
  itself otherwise.
\<close>

theorem literal_step_output:
  assumes "buffer st = head # rest"
    and "find_match (sliding_window st) (buffer st) = Inr None"
  shows "\<exists>st'. compress_step st = Inr st'
           \<and> encoded st' = encoded st
                @ (if head = ESCAPE_CHAR then [ESCAPE_CHAR, 0x00, 0x00] else [head])
           \<and> sliding_window st'
               = deque_extend size_sliding_window (sliding_window st) [head]"
  using compress_step_literal [OF assms] by (simp add: ESCAPE_CHAR_def)

theorem literal_step_output_witness:
  "buffer (initial_state [0xCC, 0x41]) = [0xCC, 0x41]
   \<and> find_match (sliding_window (initial_state [0xCC, 0x41])) (buffer (initial_state [0xCC, 0x41]))
       = Inr None
   \<and> (\<exists>st'. compress_step (initial_state [0xCC, 0x41]) = Inr st'
           \<and> encoded st' = [0xCC, 0x00, 0x00])
   \<and> compress [0xCC, 0x41] = Inr [0xCC, 0x00, 0x00, 0x41]"
proof -
  have b: "buffer (initial_state [0xCC, 0x41]) = [0xCC, 0x41]"
    by code_simp
  have f: "find_match (sliding_window (initial_state [0xCC, 0x41]))
             (buffer (initial_state [0xCC, 0x41])) = Inr None"
    by code_simp
  have e: "encoded (initial_state [0xCC, 0x41]) = []"
    by code_simp
  have c: "compress [0xCC, 0x41] = Inr [0xCC, 0x00, 0x00, 0x41]"
    by code_simp
  show ?thesis
    using literal_step_output [OF b f] b f c e by (auto simp: ESCAPE_CHAR_def)
qed


section \<open>Termination\<close>

text \<open>The number of input bytes the encoding loop has not yet moved into the
  window.\<close>

definition remaining :: "cstate \<Rightarrow> nat" where
  "remaining st = length (buffer st) + length (text_in st)"

text \<open>The state after at most \<open>n\<close> iterations of the decoding loop.\<close>

fun decompress_iter :: "nat \<Rightarrow> byte list \<Rightarrow> dstate \<Rightarrow> error + dstate" where
  "decompress_iter 0 content st = Inr st"
| "decompress_iter (Suc n) content st =
     (if cur st < length content
      then (case decompress_step content st of
              Inl e \<Rightarrow> Inl e
            | Inr st' \<Rightarrow> decompress_iter n content st')
      else Inr st)"

lemma compress_step_match:
  assumes "find_match (sliding_window st) (buffer st) = Inr (Some (off, len))"
    and "bounded st"
  shows "compress_step st =
     Inr \<lparr> text_in = drop len (text_in st),
           sliding_window = deque_extend size_sliding_window (sliding_window st)
                              (take len (buffer st)),
           buffer = drop len (buffer st) @ take len (text_in st),
           encoded = encoded st
             @ [ESCAPE_CHAR, word_of_nat (pointer_field off len div 256),
                word_of_nat (pointer_field off len mod 256)] \<rparr>"
proof -
  from find_match_run [OF assms(1)]
  have r: "off < length (sliding_window st)" "len \<le> length (buffer st)"
    "length_shortest_match \<le> len" "len \<le> length_longest_match"
    by simp_all
  from assms(2) have w: "length (sliding_window st) \<le> 4096" "length (buffer st) \<le> size_buffer"
    by (simp_all add: bounded_def size_sliding_window_def bits_offset_def)
  have enc: "encode (int off) (int len)
          = Inr [ESCAPE_CHAR, word_of_nat (pointer_field off len div 256),
                 word_of_nat (pointer_field off len mod 256)]"
    using r w
    by (intro encode_in_range)
       (simp_all add: length_shortest_match_def length_longest_match_def
          bits_length_def pointer_size_def)
  have fit: "deque_extend size_buffer (drop len (buffer st)) (take len (text_in st))
               = drop len (buffer st) @ take len (text_in st)"
    using r(2) w(2) by (intro deque_extend_fits) simp
  show ?thesis
    using assms(1) enc fit by (simp add: compress_step_def popleft_n_eq)
qed

lemma compress_step_remaining:
  assumes "buffer st \<noteq> []" and "bounded st"
  shows "case find_match (sliding_window st) (buffer st) of
           Inl e \<Rightarrow> False
         | Inr None \<Rightarrow>
             (\<exists>st'. compress_step st = Inr st' \<and> remaining st' + 1 = remaining st)
         | Inr (Some (off, len)) \<Rightarrow>
             (\<exists>st'. compress_step st = Inr st' \<and> remaining st' + len = remaining st
                    \<and> length_shortest_match \<le> len)"
proof -
  from find_match_total [OF assms(1)] obtain r
    where r: "find_match (sliding_window st) (buffer st) = Inr r" by blast
  show ?thesis
  proof (cases r)
    case None
    obtain head rest where b: "buffer st = head # rest"
      using assms(1) by (cases "buffer st") auto
    from assms(2) b have "length rest + 1 \<le> size_buffer"
      by (simp add: bounded_def)
    then have fit: "\<And>t. deque_extend size_buffer rest [t] = rest @ [t]"
      by (intro deque_extend_fits) simp
    have "\<exists>st'. compress_step st = Inr st' \<and> remaining st' + 1 = remaining st"
      using compress_step_literal [OF b] r None b fit
      by (cases "text_in st") (simp_all add: remaining_def)
    with r None show ?thesis by simp
  next
    case (Some p)
    obtain off len where p: "p = (off, len)" by (cases p)
    from r Some p have fm: "find_match (sliding_window st) (buffer st) = Inr (Some (off, len))"
      by simp
    from find_match_run [OF fm]
    have l: "len \<le> length (buffer st)" "length_shortest_match \<le> len"
      by simp_all
    have "\<exists>st'. compress_step st = Inr st' \<and> remaining st' + len = remaining st"
      using compress_step_match [OF fm assms(2)] l(1) by (simp add: remaining_def)
    with fm l(2) show ?thesis by simp
  qed
qed

lemma compress_loop_iter:
  "remaining st \<le> n \<Longrightarrow>
     compress_loop st =
       (case compress_iter n st of Inl e \<Rightarrow> Inl e | Inr st' \<Rightarrow> Inr (encoded st'))
     \<and> (case compress_iter n st of Inl e \<Rightarrow> True | Inr st' \<Rightarrow> buffer st' = [])"
proof (induction n arbitrary: st)
  case 0
  then have "buffer st = []" by (simp add: remaining_def)
  then show ?case by (simp add: compress_loop.simps)
next
  case (Suc n)
  show ?case
  proof (cases "buffer st = []")
    case True
    then show ?thesis by (simp add: compress_loop.simps)
  next
    case False
    show ?thesis
    proof (cases "compress_step st")
      case (Inl e)
      with False show ?thesis by (simp add: compress_loop.simps)
    next
      case (Inr st1)
      from compress_step_decreases [OF Inr False] Suc.prems
      have "remaining st1 \<le> n" by (simp add: remaining_def)
      from Suc.IH [OF this] Inr False show ?thesis
        by (simp add: compress_loop.simps [of st])
    qed
  qed
qed

lemma decompress_loop_iter:
  "length content - cur st \<le> n \<Longrightarrow>
     decompress_loop content st =
       (case decompress_iter n content st of Inl e \<Rightarrow> Inl e | Inr st' \<Rightarrow> Inr (decoded st'))
     \<and> (case decompress_iter n content st of
          Inl e \<Rightarrow> True | Inr st' \<Rightarrow> length content \<le> cur st')"
proof (induction n arbitrary: st)
  case 0
  then show ?case by (simp add: decompress_loop.simps)
next
  case (Suc n)
  show ?case
  proof (cases "cur st < length content")
    case False
    then show ?thesis by (simp add: decompress_loop.simps)
  next
    case True
    show ?thesis
    proof (cases "decompress_step content st")
      case (Inl e)
      with True show ?thesis by (simp add: decompress_loop.simps)
    next
      case (Inr st1)
      from decompress_step_advances [OF Inr] Suc.prems
      have "length content - cur st1 \<le> n" by simp
      from Suc.IH [OF this] Inr True show ?thesis
        by (simp add: decompress_loop.simps [of content st])
    qed
  qed
qed

lemma decompress_step_cursor:
  "decompress_step content st = Inr st' \<Longrightarrow>
     cur st' = cur st + 1 \<or> cur st' = cur st + 3 \<or> cur st' = cur st + pointer_size + 1"
  by (auto simp: decompress_step_def Let_def split: sum.splits if_splits bool.splits)


text \<open>
  C10: both loops terminate on every input.  An iteration of the encoding loop on a
  state within the deques' bounds lowers the number of bytes left in the buffer and
  the unread input by exactly 1 in the literal case and by exactly the match length,
  at least \<open>length_shortest_match\<close>, in the match case; an iteration of the decoding
  loop advances the cursor by 1, by 3 or by \<open>pointer_size + 1\<close>.  So the encoding
  loop has left its buffer empty, or has raised, after at most \<open>remaining st\<close>
  iterations, and the decoding loop has moved its cursor to the end of the input, or
  has raised, after at most \<open>length content - cur ds\<close> iterations; these iterations
  give the result of the loop.
\<close>

theorem loops_terminate:
  "(buffer st \<noteq> [] \<and> bounded st \<longrightarrow>
      (case find_match (sliding_window st) (buffer st) of
         Inl e \<Rightarrow> False
       | Inr None \<Rightarrow>
           (\<exists>st'. compress_step st = Inr st' \<and> remaining st' + 1 = remaining st)
       | Inr (Some (off, len)) \<Rightarrow>
           (\<exists>st'. compress_step st = Inr st' \<and> remaining st' + len = remaining st
                  \<and> length_shortest_match \<le> len)))
   \<and> (decompress_step content ds = Inr ds' \<longrightarrow>
        cur ds' = cur ds + 1 \<or> cur ds' = cur ds + 3 \<or> cur ds' = cur ds + pointer_size + 1)
   \<and> compress_loop st =
       (case compress_iter (remaining st) st of
          Inl e \<Rightarrow> Inl e | Inr st' \<Rightarrow> Inr (encoded st'))
   \<and> (case compress_iter (remaining st) st of Inl e \<Rightarrow> True | Inr st' \<Rightarrow> buffer st' = [])
   \<and> decompress_loop content ds =
       (case decompress_iter (length content - cur ds) content ds of
          Inl e \<Rightarrow> Inl e | Inr ds' \<Rightarrow> Inr (decoded ds'))
   \<and> (case decompress_iter (length content - cur ds) content ds of
          Inl e \<Rightarrow> True | Inr ds' \<Rightarrow> length content \<le> cur ds')"
  using compress_step_remaining [of st] decompress_step_cursor [of content ds ds']
    compress_loop_iter [of st "remaining st"]
    decompress_loop_iter [of content ds "length content - cur ds"]
  by simp

theorem loops_terminate_witness:
  "buffer (initial_state abc12) \<noteq> [] \<and> bounded (initial_state abc12)
   \<and> find_match (sliding_window (initial_state abc12)) (buffer (initial_state abc12)) = Inr None
   \<and> remaining (initial_state abc12) = 12
   \<and> (\<exists>st'. compress_step (initial_state abc12) = Inr st' \<and> remaining st' + 1 = 12)
   \<and> decompress_step [0x61] \<lparr> cur = 0, decoded = [] \<rparr> = Inr \<lparr> cur = 1, decoded = [0x61] \<rparr>"
proof -
  have b: "buffer (initial_state abc12) \<noteq> []"
    by code_simp
  have f: "find_match (sliding_window (initial_state abc12)) (buffer (initial_state abc12))
             = Inr None"
    by code_simp
  have r: "remaining (initial_state abc12) = 12"
    by code_simp
  have d: "decompress_step [0x61] \<lparr> cur = 0, decoded = [] \<rparr> = Inr \<lparr> cur = 1, decoded = [0x61] \<rparr>"
    by code_simp
  show ?thesis
    using loops_terminate [of "initial_state abc12" "[0x61]" "\<lparr> cur = 0, decoded = [] \<rparr>"
        "\<lparr> cur = 1, decoded = [0x61] \<rparr>"]
      b bounded_initial_state [of abc12] f r d
    by simp
qed

section \<open>Decoding without escape markers, and truncated input\<close>

lemma decompress_step_plain:
  assumes "cur st < length content" and "content ! cur st \<noteq> ESCAPE_CHAR"
  shows "decompress_step content st
           = Inr \<lparr> cur = cur st + 1, decoded = decoded st @ [content ! cur st] \<rparr>"
  using assms by (simp add: decompress_step_def index_def)

lemma decompress_loop_plain:
  "ESCAPE_CHAR \<notin> set (drop (cur st) content) \<Longrightarrow>
     decompress_loop content st = Inr (decoded st @ drop (cur st) content)"
proof (induction content st rule: decompress_loop.induct)
  case (1 content st)
  show ?case
  proof (cases "cur st < length content")
    case False
    then show ?thesis by (simp add: decompress_loop.simps)
  next
    case True
    then have d: "drop (cur st) content = content ! cur st # drop (Suc (cur st)) content"
      by (simp add: Cons_nth_drop_Suc)
    with "1.prems" have ne: "content ! cur st \<noteq> ESCAPE_CHAR"
      and rest: "ESCAPE_CHAR \<notin> set (drop (Suc (cur st)) content)"
      by auto
    let ?st' = "\<lparr> cur = cur st + 1, decoded = decoded st @ [content ! cur st] \<rparr>"
    have step: "decompress_step content st = Inr ?st'"
      by (rule decompress_step_plain [OF True ne])
    from "1.IH" [OF True step] rest
    have "decompress_loop content ?st' = Inr (decoded ?st' @ drop (cur ?st') content)"
      by simp
    then show ?thesis
      using True step d by (simp add: decompress_loop.simps [of content st])
  qed
qed

text \<open>
  C8: \<open>decompress\<close> returns unchanged every byte sequence that contains no byte
  equal to \<open>ESCAPE_CHAR\<close>.
\<close>

theorem decompress_without_escape:
  assumes "ESCAPE_CHAR \<notin> set content"
  shows "decompress content = Inr content"
  using decompress_loop_plain [of "\<lparr> cur = 0, decoded = [] \<rparr>" content] assms
  by (simp add: decompress_def)

theorem decompress_without_escape_witness:
  "ESCAPE_CHAR \<notin> set abc12 \<and> decompress abc12 = Inr abc12"
proof -
  have n: "ESCAPE_CHAR \<notin> set abc12"
    by (simp add: abc12_def ESCAPE_CHAR_def)
  show ?thesis
    using decompress_without_escape [OF n] n by simp
qed

lemma decompress_iter_loop:
  "decompress_iter n content st = Inr st' \<Longrightarrow>
     decompress_loop content st = decompress_loop content st'"
proof (induction n arbitrary: st)
  case 0
  then show ?case by simp
next
  case (Suc n)
  show ?case
  proof (cases "cur st < length content")
    case False
    with Suc.prems show ?thesis by simp
  next
    case True
    with Suc.prems obtain st1 where s: "decompress_step content st = Inr st1"
      "decompress_iter n content st1 = Inr st'"
      by (auto split: sum.splits)
    from Suc.IH [OF s(2)] s(1) True show ?thesis
      by (simp add: decompress_loop.simps [of content st])
  qed
qed

lemma int2str_byte: "int2str (uint (b :: byte)) 8 = bits 8 (unat b)"
  using int2str_bits [of 8 "uint b"] uint_lt2p [of b] by simp

lemma decode_short:
  assumes "length arr_bytes < pointer_size + 1"
  shows "decode arr_bytes = Inl ValueError"
proof (cases "drop 1 arr_bytes")
  case Nil
  then show ?thesis
    by (simp add: decode_def int_base2_def)
next
  case (Cons b bs)
  with assms have bs: "bs = []"
    by (cases arr_bytes) (auto simp: pointer_size_def)
  have "int_base2 (bits 8 (unat b)) = Inr (int (unat b mod 2 ^ 8))"
    by (rule int_base2_bits) simp
  then show ?thesis
    using Cons bs
    by (simp add: decode_def Let_def int2str_byte bits_offset_def)
       (simp add: int_base2_def)
qed

lemma py_slice_take_drop:
  "py_slice xs (int i) (int i + int k) = take k (drop i xs)"
proof -
  let ?n = "length xs"
  have s: "slice_bound (int i) (int ?n) = int (min i ?n)"
    by (simp add: slice_bound_def min_def)
  have e: "slice_bound (int i + int k) (int ?n) = int (min (i + k) ?n)"
    by (simp add: slice_bound_def min_def)
  have "py_slice xs (int i) (int i + int k)
          = take (min (i + k) ?n - min i ?n) (drop (min i ?n) xs)"
    unfolding py_slice_def Let_def s e by (simp add: nat_diff_distrib')
  also have "\<dots> = take k (drop i xs)"
  proof (cases "i \<le> ?n")
    case True
    then have "min (i + k) ?n - min i ?n = min k (?n - i)"
      by (auto simp: min_def)
    moreover have "take (min k (?n - i)) (drop i xs) = take k (drop i xs)"
      by (simp add: min_def)
    ultimately show ?thesis
      using True by (simp add: min_absorb1)
  next
    case False
    then show ?thesis by simp
  qed
  finally show ?thesis .
qed

lemma pointer_slice:
  "py_slice content (int c) (int c + int pointer_size + 1) = take 3 (drop c content)"
proof -
  have "int c + int pointer_size + 1 = int c + int 3"
    by (simp add: pointer_size_def)
  then show ?thesis
    using py_slice_take_drop [of content c 3] by (simp only:)
qed

lemma decompress_step_truncated:
  assumes "cur st < length content" and "content ! cur st = ESCAPE_CHAR"
    and "length content - cur st < pointer_size + 1"
  shows "decompress_step content st =
           Inl (if cur st + 1 < length content \<and> content ! (cur st + 1) \<noteq> 0
                then ValueError else IndexError)"
proof (cases "cur st + 1 < length content \<and> content ! (cur st + 1) \<noteq> 0")
  case True
  have "length (take 3 (drop (cur st) content)) < pointer_size + 1"
    using assms(3) by (simp add: pointer_size_def)
  then have "decode (py_slice content (int (cur st)) (int (cur st) + int pointer_size + 1))
      = Inl ValueError"
    unfolding pointer_slice by (rule decode_short)
  with True assms(1,2) show ?thesis
    by (simp add: decompress_step_def index_def Let_def)
next
  case False
  with assms show ?thesis
    by (auto simp: decompress_step_def index_def pointer_size_def)
qed

text \<open>
  C4: whenever the decoding loop, after any number of iterations from the start of
  \<open>decompress\<close>, stands on an escape marker with fewer than \<open>pointer_size + 1\<close>
  bytes from the marker to the end of the input, \<open>decompress\<close> fails: with
  \<open>ValueError\<close>, raised by \<open>decode\<close> on the short pointer, when one non-zero byte
  follows the marker, and with \<open>IndexError\<close>, raised by the read past the end,
  otherwise.  Likewise \<open>decode\<close> fails with \<open>ValueError\<close> on fewer than
  \<open>pointer_size + 1\<close> bytes.  The code has no exception classes of its own: its
  malformed-pointer failure is Python's \<open>ValueError\<close> and its truncated-input
  failure is Python's \<open>IndexError\<close>.
\<close>

theorem truncated_escape_fails:
  "(decompress_iter n content \<lparr> cur = 0, decoded = [] \<rparr> = Inr st
      \<and> cur st < length content \<and> content ! cur st = ESCAPE_CHAR
      \<and> length content - cur st < pointer_size + 1
    \<longrightarrow> decompress content =
          Inl (if cur st + 1 < length content \<and> content ! (cur st + 1) \<noteq> 0
               then ValueError else IndexError))
   \<and> (length arr_bytes < pointer_size + 1 \<longrightarrow> decode arr_bytes = Inl ValueError)"
proof (intro conjI impI)
  assume a: "decompress_iter n content \<lparr> cur = 0, decoded = [] \<rparr> = Inr st
      \<and> cur st < length content \<and> content ! cur st = ESCAPE_CHAR
      \<and> length content - cur st < pointer_size + 1"
  then have "decompress content = decompress_loop content st"
    using decompress_iter_loop [of n content "\<lparr> cur = 0, decoded = [] \<rparr>" st]
    by (simp add: decompress_def)
  also have "\<dots> = Inl (if cur st + 1 < length content \<and> content ! (cur st + 1) \<noteq> 0
               then ValueError else IndexError)"
    using a decompress_step_truncated [of st content]
    by (simp add: decompress_loop.simps [of content st])
  finally show "decompress content =
          Inl (if cur st + 1 < length content \<and> content ! (cur st + 1) \<noteq> 0
               then ValueError else IndexError)" .
next
  assume "length arr_bytes < pointer_size + 1"
  then show "decode arr_bytes = Inl ValueError"
    by (rule decode_short)
qed

theorem truncated_escape_fails_witness:
  "decompress_iter 1 [0x61, 0xCC, 0x05] \<lparr> cur = 0, decoded = [] \<rparr>
     = Inr \<lparr> cur = 1, decoded = [0x61] \<rparr>
   \<and> [0x61, 0xCC, 0x05 :: byte] ! 1 = ESCAPE_CHAR
   \<and> decompress [0x61, 0xCC, 0x05] = Inl ValueError
   \<and> decompress [0x61, 0xCC, 0x00] = Inl IndexError
   \<and> decompress [0x61, 0xCC] = Inl IndexError
   \<and> decode [0xCC, 0x05] = Inl ValueError"
proof -
  have i: "decompress_iter 1 [0x61, 0xCC, 0x05] \<lparr> cur = 0, decoded = [] \<rparr>
     = Inr \<lparr> cur = 1, decoded = [0x61] \<rparr>"
    by code_simp
  have e: "[0x61, 0xCC, 0x05 :: byte] ! 1 = ESCAPE_CHAR"
    by (simp add: ESCAPE_CHAR_def)
  have o: "decompress [0x61, 0xCC, 0x00] = Inl IndexError"
    "decompress [0x61, 0xCC] = Inl IndexError"
    by code_simp+
  show ?thesis
    using truncated_escape_fails [of 1 "[0x61, 0xCC, 0x05]" "\<lparr> cur = 1, decoded = [0x61] \<rparr>"
        "[0xCC, 0x05]"] i o
    by (simp add: pointer_size_def ESCAPE_CHAR_def)
qed

section \<open>Round trip\<close>

lemma window_extend:
  "deque_extend m (drop (length p - m) p) xs = drop (length (p @ xs) - m) (p @ xs)"
  by (cases "length p \<le> m") (auto simp: deque_extend_def Let_def add.commute)

lemma decompress_loop_step:
  "cur st < length content \<Longrightarrow> decompress_step content st = Inr st' \<Longrightarrow>
     decompress_loop content st = decompress_loop content st'"
  by (simp add: decompress_loop.simps [of content st])

lemma decompress_step_literal_token:
  "b \<noteq> ESCAPE_CHAR \<Longrightarrow>
     decompress_step (A @ b # R) \<lparr> cur = length A, decoded = d \<rparr>
       = Inr \<lparr> cur = length A + 1, decoded = d @ [b] \<rparr>"
  by (simp add: decompress_step_def index_def)

lemma decompress_step_escaped_token:
  "decompress_step (A @ ESCAPE_CHAR # 0 # 0 # R) \<lparr> cur = length A, decoded = d \<rparr>
     = Inr \<lparr> cur = length A + 3, decoded = d @ [ESCAPE_CHAR] \<rparr>"
  by (simp add: decompress_step_def index_def nth_append)

lemma pointer_slice_token:
  "py_slice (A @ m # b1 # b2 # R) (int (length A)) (int (length A) + int pointer_size + 1)
     = [m, b1, b2]"
  unfolding pointer_slice by simp

lemma decompress_step_pointer_token:
  assumes "\<not> (b1 = 0 \<and> b2 = 0)" and "decode [ESCAPE_CHAR, b1, b2] = Inr (off, len)"
  shows "decompress_step (A @ ESCAPE_CHAR # b1 # b2 # R) \<lparr> cur = length A, decoded = d \<rparr>
     = Inr \<lparr> cur = length A + pointer_size + 1,
             decoded = d @ py_slice d (int (length d) - off - 1)
                                      (int (length d) - off - 1 + len) \<rparr>"
  using assms
  by (auto simp: decompress_step_def index_def nth_append pointer_slice_token Let_def)


text \<open>The invariant of the encoding loop, relative to the bytes \<open>done\<close> already
  moved out of the buffer: the window holds the last \<open>size_sliding_window\<close> of them,
  the buffer respects its bound, and the buffer runs empty only when the input
  does.\<close>

definition round_trip_inv :: "byte list \<Rightarrow> cstate \<Rightarrow> bool" where
  "round_trip_inv done st \<longleftrightarrow>
     sliding_window st = drop (length done - size_sliding_window) done
     \<and> length (buffer st) \<le> size_buffer
     \<and> (buffer st = [] \<longrightarrow> text_in st = [])"

lemma round_trip_inv_bounded: "round_trip_inv done st \<Longrightarrow> bounded st"
  by (simp add: round_trip_inv_def bounded_def)

lemma round_trip_inv_initial: "round_trip_inv [] (initial_state content)"
proof -
  have "deque_extend size_buffer [] (take size_buffer content) = take size_buffer content"
    by (intro deque_extend_fits [of "[]", simplified]) simp
  then show ?thesis
    by (auto simp: round_trip_inv_def initial_state_def popleft_n_eq size_buffer_def)
qed

lemma round_trip_inv_literal:
  assumes "round_trip_inv done st" and "buffer st = head # rest"
    and "st' = \<lparr> text_in = drop 1 (text_in st),
           sliding_window = deque_extend size_sliding_window (sliding_window st) [head],
           buffer = (if length (text_in st) > 0
                     then deque_extend size_buffer rest (take 1 (text_in st))
                     else rest),
           encoded = e \<rparr>"
  shows "round_trip_inv (done @ [head]) st'
         \<and> buffer st' @ text_in st' = rest @ text_in st"
proof -
  from assms(1,2) have "length rest + 1 \<le> size_buffer"
    by (simp add: round_trip_inv_def)
  then have fit: "\<And>t. deque_extend size_buffer rest [t] = rest @ [t]"
    by (intro deque_extend_fits) simp
  have w: "sliding_window st' = drop (length (done @ [head]) - size_sliding_window) (done @ [head])"
    using assms(1,3) window_extend [of size_sliding_window "done" "[head]"]
    by (simp add: round_trip_inv_def)
  show ?thesis
  proof (cases "text_in st")
    case Nil
    with assms w show ?thesis by (simp add: round_trip_inv_def)
  next
    case (Cons t ts)
    with assms w fit show ?thesis by (simp add: round_trip_inv_def)
  qed
qed

lemma round_trip_inv_match:
  assumes "round_trip_inv done st" and "0 < len" and "len \<le> length (buffer st)"
    and "st' = \<lparr> text_in = drop len (text_in st),
           sliding_window = deque_extend size_sliding_window (sliding_window st)
                              (take len (buffer st)),
           buffer = drop len (buffer st) @ take len (text_in st),
           encoded = e \<rparr>"
  shows "round_trip_inv (done @ take len (buffer st)) st'
         \<and> take len (buffer st) @ buffer st' @ text_in st' = buffer st @ text_in st"
proof -
  have w: "sliding_window st' = drop (length (done @ take len (buffer st)) - size_sliding_window)
                                  (done @ take len (buffer st))"
    using assms(1,4) window_extend [of size_sliding_window "done" "take len (buffer st)"]
    by (simp add: round_trip_inv_def)
  have "length (buffer st') \<le> length (buffer st) - len + len"
    using assms(4) by simp
  moreover have "length (buffer st) \<le> size_buffer"
    using assms(1) by (simp add: round_trip_inv_def)
  ultimately have l: "length (buffer st') \<le> size_buffer"
    using assms(3) by arith
  have e: "buffer st' = [] \<longrightarrow> text_in st' = []"
    using assms(2,4) by (cases "text_in st") auto
  have c: "take len (buffer st) @ buffer st' @ text_in st' = buffer st @ text_in st"
    using assms(4) by simp
  from w l e c show ?thesis
    unfolding round_trip_inv_def by blast
qed

lemma pointer_copy:
  assumes "find_match sw b = Inr (Some (off, len))"
    and "sw = drop (length done - m) done"
  shows "py_slice done (int (length done) - int off - 1)
           (int (length done) - int off - 1 + int len) = take len b"
proof -
  from find_match_run [OF assms(1)]
  have r: "off < length sw" "len \<le> off + 1" "len \<le> length b"
    "\<forall>i<len. sw ! (length sw - 1 - off + i) = b ! i"
    by blast+
  define k where "k = length done - m"
  define c where "c = length sw - 1 - off"
  define s where "s = length done - off - 1"
  have sw: "sw = drop k done" "length sw = length done - k"
    using assms(2) by (simp_all add: k_def)
  have klen: "k \<le> length done" by (simp add: k_def)
  have sc: "s = c + k"
    using r(1) sw(2) klen unfolding s_def c_def by arith
  have si: "int (length done) - int off - 1 = int s"
    using r(1) sw(2) unfolding s_def by arith
  have cl: "c + len \<le> length sw"
    using r(1,2) unfolding c_def by arith
  have "py_slice done (int s) (int s + int len) = take len (drop s done)"
    by (rule py_slice_take_drop)
  also have "drop s done = drop c sw"
    by (simp add: sw(1) sc)
  also have "take len (drop c sw) = take len b"
  proof (rule nth_equalityI)
    show "length (take len (drop c sw)) = length (take len b)"
      using cl r(3) by simp
  next
    fix i assume "i < length (take len (drop c sw))"
    then have i: "i < len" by simp
    with cl r(3) have "take len (drop c sw) ! i = sw ! (c + i)" "take len b ! i = b ! i"
      by simp_all
    with r(4) i show "take len (drop c sw) ! i = take len b ! i"
      by (simp add: c_def)
  qed
  finally show ?thesis
    by (simp only: si)
qed

lemma pointer_not_escaped_literal:
  assumes "len \<le> off + 1" and "off < 4096" and "4 \<le> len" and "len \<le> 19"
  shows "\<not> (word_of_nat (pointer_field off len div 256) = (0 :: byte)
            \<and> word_of_nat (pointer_field off len mod 256) = (0 :: byte))"
proof
  let ?f = "pointer_field off len"
  assume z: "word_of_nat (?f div 256) = (0 :: byte) \<and> word_of_nat (?f mod 256) = (0 :: byte)"
  have lt: "?f < 65536"
    by (rule pointer_field_less [OF assms(2,4)])
  from z have "unat (word_of_nat (?f div 256) :: byte) = 0"
    "unat (word_of_nat (?f mod 256) :: byte) = 0"
    by simp_all
  then have "?f div 256 = 0" "?f mod 256 = 0"
    using lt by (simp_all add: unat_of_nat)
  then have "?f = 0"
    by (metis add.right_neutral mult_zero_right mult_div_mod_eq)
  moreover have "48 \<le> ?f"
    using assms
    by (simp add: pointer_field_def bits_length_def length_shortest_match_def pointer_size_def)
  ultimately show False by simp
qed


lemma compress_loop_round_trip:
  "round_trip_inv done st \<Longrightarrow>
     \<exists>r. compress_loop st = Inr (encoded st @ r)
        \<and> (\<forall>A. decompress_loop (A @ r) \<lparr> cur = length A, decoded = done \<rparr>
                 = Inr (done @ buffer st @ text_in st))"
proof (induction st arbitrary: "done" rule: compress_loop.induct)
  case (1 st)
  show ?case
  proof (cases "buffer st = []")
    case True
    with "1.prems" have "text_in st = []"
      by (simp add: round_trip_inv_def)
    with True show ?thesis
      by (simp add: compress_loop.simps [of st] decompress_loop.simps)
  next
    case False
    then have pos: "0 < length (buffer st)" by simp
    obtain head rest where b: "buffer st = head # rest"
      using False by (cases "buffer st") auto
    from find_match_total [OF False] obtain m
      where m: "find_match (sliding_window st) (buffer st) = Inr m" by blast
    show ?thesis
    proof (cases m)
      case None
      define tok where "tok = (if head = ESCAPE_CHAR then [0xCC, 0x00, 0x00] else [head])"
      define st' where "st' = \<lparr> text_in = drop 1 (text_in st),
           sliding_window = deque_extend size_sliding_window (sliding_window st) [head],
           buffer = (if length (text_in st) > 0
                     then deque_extend size_buffer rest (take 1 (text_in st))
                     else rest),
           encoded = encoded st @ tok \<rparr>"
      have step: "compress_step st = Inr st'"
        using compress_step_literal [OF b] m None by (simp add: st'_def tok_def)
      from round_trip_inv_literal [OF "1.prems" b st'_def]
      have inv': "round_trip_inv (done @ [head]) st'"
        and rest: "buffer st' @ text_in st' = rest @ text_in st"
        by simp_all
      from "1.IH" [OF pos step inv'] obtain r'
        where c': "compress_loop st' = Inr (encoded st' @ r')"
          and d': "\<And>A. decompress_loop (A @ r') \<lparr> cur = length A, decoded = done @ [head] \<rparr>
                       = Inr ((done @ [head]) @ buffer st' @ text_in st')"
        by blast
      have c: "compress_loop st = Inr (encoded st @ tok @ r')"
        using pos step c' by (simp add: compress_loop.simps [of st] st'_def)
      have d: "decompress_loop (A @ tok @ r') \<lparr> cur = length A, decoded = done \<rparr>
                 = Inr (done @ buffer st @ text_in st)" for A
      proof -
        have one: "decompress_step (A @ tok @ r') \<lparr> cur = length A, decoded = done \<rparr>
                     = Inr \<lparr> cur = length (A @ tok), decoded = done @ [head] \<rparr>"
        proof (cases "head = ESCAPE_CHAR")
          case True
          then show ?thesis
            using decompress_step_escaped_token [of A r' "done"]
            by (simp add: tok_def ESCAPE_CHAR_def)
        next
          case False
          then show ?thesis
            using decompress_step_literal_token [of head A r' "done"]
            by (simp add: tok_def)
        qed
        have "tok \<noteq> []" by (simp add: tok_def)
        then have "cur \<lparr> cur = length A, decoded = done \<rparr> < length (A @ tok @ r')"
          by (cases tok) auto
        from decompress_loop_step [OF this one]
        have "decompress_loop (A @ tok @ r') \<lparr> cur = length A, decoded = done \<rparr>
                = decompress_loop ((A @ tok) @ r')
                    \<lparr> cur = length (A @ tok), decoded = done @ [head] \<rparr>"
          by simp
        also have "\<dots> = Inr ((done @ [head]) @ buffer st' @ text_in st')"
          by (rule d')
        finally show ?thesis
          using rest b by simp
      qed
      from c d show ?thesis by blast
    next
      case (Some p)
      obtain off len where p: "p = (off, len)" by (cases p)
      from m Some p have fm: "find_match (sliding_window st) (buffer st) = Inr (Some (off, len))"
        by simp
      from find_match_run [OF fm]
      have r: "off < length (sliding_window st)" "len \<le> off + 1" "len \<le> length (buffer st)"
        "length_shortest_match \<le> len" "len \<le> length_longest_match"
        by blast+
      have bd: "bounded st"
        by (rule round_trip_inv_bounded [OF "1.prems"])
      then have "length (sliding_window st) \<le> 4096"
        by (simp add: bounded_def size_sliding_window_def bits_offset_def)
      with r have rng: "off < 4096" "4 \<le> len" "len \<le> 19"
        by (simp_all add: length_shortest_match_def length_longest_match_def
              bits_length_def pointer_size_def)
      define b1 :: byte where "b1 = word_of_nat (pointer_field off len div 256)"
      define b2 :: byte where "b2 = word_of_nat (pointer_field off len mod 256)"
      define tok where "tok = [ESCAPE_CHAR, b1, b2]"
      define st' where "st' = \<lparr> text_in = drop len (text_in st),
           sliding_window = deque_extend size_sliding_window (sliding_window st)
                              (take len (buffer st)),
           buffer = drop len (buffer st) @ take len (text_in st),
           encoded = encoded st @ tok \<rparr>"
      have step: "compress_step st = Inr st'"
        using compress_step_match [OF fm bd] by (simp add: st'_def tok_def b1_def b2_def)
      from rng have lpos: "0 < len" by simp
      from round_trip_inv_match [OF "1.prems" lpos r(3) st'_def]
      have inv': "round_trip_inv (done @ take len (buffer st)) st'"
        and rest: "take len (buffer st) @ buffer st' @ text_in st' = buffer st @ text_in st"
        by simp_all
      from "1.IH" [OF pos step inv'] obtain r'
        where c': "compress_loop st' = Inr (encoded st' @ r')"
          and d': "\<And>A. decompress_loop (A @ r')
                         \<lparr> cur = length A, decoded = done @ take len (buffer st) \<rparr>
                       = Inr ((done @ take len (buffer st)) @ buffer st' @ text_in st')"
        by blast
      have c: "compress_loop st = Inr (encoded st @ tok @ r')"
        using pos step c' by (simp add: compress_loop.simps [of st] st'_def)
      have nz: "\<not> (b1 = 0 \<and> b2 = 0)"
        unfolding b1_def b2_def by (rule pointer_not_escaped_literal [OF r(2) rng])
      have dec: "decode [ESCAPE_CHAR, b1, b2] = Inr (int off, int len)"
        unfolding b1_def b2_def by (rule decode_encode [OF rng])
      have w: "sliding_window st = drop (length done - size_sliding_window) done"
        using "1.prems" by (simp add: round_trip_inv_def)
      have copy: "py_slice done (int (length done) - int off - 1)
                    (int (length done) - int off - 1 + int len) = take len (buffer st)"
        by (rule pointer_copy [OF fm w])
      have d: "decompress_loop (A @ tok @ r') \<lparr> cur = length A, decoded = done \<rparr>
                 = Inr (done @ buffer st @ text_in st)" for A
      proof -
        have one: "decompress_step (A @ tok @ r') \<lparr> cur = length A, decoded = done \<rparr>
                     = Inr \<lparr> cur = length (A @ tok),
                             decoded = done @ take len (buffer st) \<rparr>"
          using decompress_step_pointer_token [OF nz dec, of A r' "done"] copy
          by (simp add: tok_def pointer_size_def)
        have "cur \<lparr> cur = length A, decoded = done \<rparr> < length (A @ tok @ r')"
          by (simp add: tok_def)
        from decompress_loop_step [OF this one]
        have "decompress_loop (A @ tok @ r') \<lparr> cur = length A, decoded = done \<rparr>
                = decompress_loop ((A @ tok) @ r')
                    \<lparr> cur = length (A @ tok), decoded = done @ take len (buffer st) \<rparr>"
          by simp
        also have "\<dots> = Inr ((done @ take len (buffer st)) @ buffer st' @ text_in st')"
          by (rule d')
        finally show ?thesis
          using rest by simp
      qed
      from c d show ?thesis by blast
    qed
  qed
qed

text \<open>
  C1: for every byte sequence \<open>b\<close>, whatever its length and content (empty, a
  single byte, repetitive, containing \<open>ESCAPE_CHAR\<close>, with runs of any length),
  \<open>compress\<close> returns an output without raising, and \<open>decompress\<close> of that output
  returns \<open>b\<close> without raising.
\<close>

theorem round_trip:
  "\<exists>c. compress b = Inr c \<and> decompress c = Inr b"
proof -
  from compress_loop_round_trip [OF round_trip_inv_initial [of b]]
  obtain r where c: "compress_loop (initial_state b) = Inr (encoded (initial_state b) @ r)"
    and d: "\<And>A. decompress_loop (A @ r) \<lparr> cur = length A, decoded = [] \<rparr>
              = Inr ([] @ buffer (initial_state b) @ text_in (initial_state b))"
    by blast
  have e: "encoded (initial_state b) = []"
    by (simp add: initial_state_def popleft_n_eq)
  have "deque_extend size_buffer [] (take size_buffer b) = take size_buffer b"
    by (intro deque_extend_fits [of "[]", simplified]) simp
  then have i: "buffer (initial_state b) @ text_in (initial_state b) = b"
    by (simp add: initial_state_def popleft_n_eq)
  have "compress b = Inr r"
    using c e by (simp add: compress_def)
  moreover have "decompress r = Inr b"
    using d [of "[]"] i by (simp add: decompress_def)
  ultimately show ?thesis by blast
qed

end
